theory Spec2Isabelle
  imports Complex_Main "HOL-Library.Multiset"
begin

section \<open>QueryTube: semantic search over a fixed corpus (app.py)\<close>

text \<open>
  The script loads a table of video records and a matrix of precomputed embeddings,
  wraps the sentence encoder in a bounded least-recently-used cache, and answers a
  query by ranking the corpus rows by cosine similarity to the encoded query.

  What the script takes from its imports (numpy, scikit-learn, pandas, the encoder
  model) is not part of the repository; these routines are parameters of the model,
  collected in the record \<open>lib\<close> and in the field \<open>model\<close> of the loaded globals.
  Python strings are lists of Unicode code points, Python integers are \<open>int\<close>, and a
  similarity score (a finite float, used only in comparisons) is a \<open>real\<close>.
\<close>

subsection \<open>Python values\<close>

type_synonym pystr = "nat list"

datatype pyexn = FileNotFoundError | IndexError | ValueError | RuntimeError | OSError

text \<open>
  \<open>str.strip()\<close> removes leading and trailing white space; for a \<open>str\<close> that is
  every code point for which \<open>str.isspace\<close> holds.
\<close>

definition isspace :: "nat \<Rightarrow> bool" where
  "isspace c \<longleftrightarrow>
     (9 \<le> c \<and> c \<le> 13) \<or> (28 \<le> c \<and> c \<le> 32) \<or> c = 133 \<or> c = 160 \<or> c = 5760 \<or>
     (8192 \<le> c \<and> c \<le> 8202) \<or> c = 8232 \<or> c = 8233 \<or> c = 8239 \<or> c = 8287 \<or> c = 12288"

definition strip :: "pystr \<Rightarrow> pystr" where
  "strip s = rev (dropWhile isspace (rev (dropWhile isspace s)))"

text \<open>
  \<open>a[start:]\<close> on a sequence of length \<open>n\<close>: a negative start counts from the end and is
  clamped to \<open>0\<close>, a start beyond the end is clamped to \<open>n\<close>; slicing never raises.
\<close>

definition slice_from :: "int \<Rightarrow> 'a list \<Rightarrow> 'a list" where
  "slice_from start xs =
     (let n = int (length xs);
          s = (if start < 0 then max (start + n) 0 else min start n)
      in drop (nat s) xs)"

subsection \<open>Imported routines and loaded globals\<close>

text \<open>
  \<^item> \<open>cosine_rows q Y\<close> is what scikit-learn's \<open>cosine_similarity\<close> computes for the
    query embedding and a matrix \<open>Y\<close> with at least one row: one score per row of \<open>Y\<close>,
    or the exception it raises on other input it rejects;
  \<^item> \<open>argsort a\<close> is \<open>np.argsort(a)\<close>;
  \<^item> \<open>card r\<close> is the body of the rendering loop (lines 60 to 82) for the row \<open>r\<close> that
    \<open>df.iloc[idx]\<close> returned: it reads the fields, formats the date (which raises on a
    cell pandas cannot format) and builds the markup of one card. The view count drawn
    at random for display is not part of the card.
\<close>

record ('v, 'r, 'c) lib =
  cosine_rows :: "'v \<Rightarrow> 'v list \<Rightarrow> pyexn + real list"
  argsort :: "real list \<Rightarrow> nat list"
  card :: "'r \<Rightarrow> pyexn + 'c"

text \<open>
  \<open>cosine_similarity(query_embedding, corpus_embeddings)[0]\<close> (line 49). scikit-learn
  validates both arrays before it computes anything and rejects an array with no rows
  with \<open>ValueError\<close>, so an empty corpus never reaches the ranking.
\<close>

definition cosine_similarity ::
  "('v, 'r, 'c) lib \<Rightarrow> 'v \<Rightarrow> 'v list \<Rightarrow> pyexn + real list" where
  "cosine_similarity L q Y = (if Y = [] then Inl ValueError else cosine_rows L q Y)"

text \<open>
  The contract of \<open>np.argsort\<close>: the result is a permutation of the positions of the
  array, and reading the array along it gives an ascending sequence. The script calls it
  with the default kind, for which numpy promises no order among equal elements: which
  of two equal scores comes first is not determined by the script.
\<close>

definition is_argsort :: "real list \<Rightarrow> nat list \<Rightarrow> bool" where
  "is_argsort a p \<longleftrightarrow> mset p = mset [0..<length a] \<and> sorted (map ((!) a) p)"

text \<open>
  Two argsorts that meet the contract and differ on equal elements only:
  \<open>stable_argsort\<close> keeps equal elements in index order, \<open>reverse_argsort\<close> puts them in
  reverse index order. Neither is said to be what numpy does; they are the two ends of
  what the contract allows.
\<close>

definition stable_argsort :: "real list \<Rightarrow> nat list" where
  "stable_argsort a = sort_key ((!) a) [0..<length a]"

definition reverse_argsort :: "real list \<Rightarrow> nat list" where
  "reverse_argsort a = sort_key ((!) a) (rev [0..<length a])"

text \<open>The module-level variables assigned by the loading block (lines 17 to 25).\<close>

record ('r, 'v) globals =
  df :: "'r list"
  corpus_embeddings :: "'v list"
  model :: "pystr \<Rightarrow> pyexn + 'v"

subsection \<open>Ranking (line 50)\<close>

text \<open>\<open>top_k_indices = np.argsort(similarities)[-k:][::-1]\<close>\<close>

definition top_k_indices :: "('v, 'r, 'c) lib \<Rightarrow> real list \<Rightarrow> int \<Rightarrow> nat list" where
  "top_k_indices L similarities k = rev (slice_from (- k) (argsort L similarities))"

subsection \<open>The cached encoder (lines 34 to 37)\<close>

text \<open>
  \<open>encode_query\<close> is \<open>model.encode([query])\<close> behind \<open>functools.lru_cache(maxsize=128)\<close>.
  The cache is the list of its (key, result) entries, the most recently used first; the
  key of a call is its one positional argument, compared by equality of strings. A hit
  moves the entry to the front and does not call the wrapped function. A miss calls it;
  an exception it raises passes through and nothing is stored; its result is stored at
  the front, after the oldest entry has been dropped when the cache is full. The field
  \<open>calls\<close> counts the invocations of the wrapped function.
\<close>

definition maxsize :: nat where
  "maxsize = 128"

record 'v lru =
  cache :: "(pystr \<times> 'v) list"
  calls :: nat

definition cache_clear :: "'v lru" where
  "cache_clear = \<lparr>cache = [], calls = 0\<rparr>"

definition encode_query ::
  "(pystr \<Rightarrow> pyexn + 'v) \<Rightarrow> pystr \<Rightarrow> 'v lru \<Rightarrow> (pyexn + 'v) \<times> 'v lru" where
  "encode_query enc query st =
     (case map_of (cache st) query of
        Some v \<Rightarrow>
          (Inr v, st\<lparr>cache := (query, v) # filter (\<lambda>e. fst e \<noteq> query) (cache st)\<rparr>)
      | None \<Rightarrow>
          (case enc query of
             Inl e \<Rightarrow> (Inl e, st\<lparr>calls := calls st + 1\<rparr>)
           | Inr v \<Rightarrow>
               (Inr v,
                st\<lparr>cache := (query, v) #
                              (if maxsize \<le> length (cache st) then butlast (cache st)
                               else cache st),
                   calls := calls st + 1\<rparr>)))"

text \<open>The encoder state after a sequence of calls, starting from the empty cache.\<close>

definition encode_all :: "(pystr \<Rightarrow> pyexn + 'v) \<Rightarrow> pystr list \<Rightarrow> 'v lru" where
  "encode_all enc qs = foldl (\<lambda>st q. snd (encode_query enc q st)) cache_clear qs"

subsection \<open>The search generator (lines 40 to 84)\<close>

text \<open>
  A run of the generator is the list of the pairs (markup, status) it yields, and the
  exception that ended it, if one did. The markup and the status lines are constructors:
  \<^item> \<open>PleaseEnter\<close>, \<open>WaitingForInput\<close>: the pair yielded for a blank query (line 43);
  \<^item> \<open>Blank\<close>, \<open>Searching\<close>: the pair yielded before the computation (line 46);
  \<^item> \<open>NoResultsFound\<close>, \<open>ReadyForNewSearch\<close>: the pair of line 53;
  \<^item> \<open>TopResults query cards\<close>, \<open>DisplayingTop n\<close>: the heading with the cards of the
    selected rows in order, and the count \<open>len(top_k_indices)\<close> (line 84).
\<close>

datatype 'c html = Blank | PleaseEnter | NoResultsFound | TopResults pystr "'c list"

datatype status = WaitingForInput | Searching | ReadyForNewSearch | DisplayingTop nat

record 'c run =
  yields :: "('c html \<times> status) list"
  raised :: "pyexn option"

text \<open>
  The loop of lines 59 to 82: \<open>df.iloc[idx]\<close> raises \<open>IndexError\<close> for a position past the
  last row of the table; an exception ends the loop and the generator.
\<close>

fun cards :: "('v, 'r, 'c) lib \<Rightarrow> 'r list \<Rightarrow> nat list \<Rightarrow> pyexn + 'c list" where
  "cards L rows [] = Inr []"
| "cards L rows (idx # rest) =
     (if length rows \<le> idx then Inl IndexError
      else case card L (rows ! idx) of
             Inl e \<Rightarrow> Inl e
           | Inr c \<Rightarrow> (case cards L rows rest of Inl e \<Rightarrow> Inl e | Inr cs \<Rightarrow> Inr (c # cs)))"

definition search_generator ::
  "('v, 'r, 'c) lib \<Rightarrow> ('r, 'v) globals \<Rightarrow> 'v lru \<Rightarrow> pystr \<Rightarrow> int \<Rightarrow> 'c run \<times> 'v lru" where
  "search_generator L G st query k =
     (if strip query = [] then
        (\<lparr>yields = [(PleaseEnter, WaitingForInput)], raised = None\<rparr>, st)
      else
        case encode_query (model G) query st of
          (Inl e, st') \<Rightarrow> (\<lparr>yields = [(Blank, Searching)], raised = Some e\<rparr>, st')
        | (Inr query_embedding, st') \<Rightarrow>
            (case cosine_similarity L query_embedding (corpus_embeddings G) of
               Inl e \<Rightarrow> (\<lparr>yields = [(Blank, Searching)], raised = Some e\<rparr>, st')
             | Inr similarities \<Rightarrow>
                 (let top = top_k_indices L similarities k in
                  if length top = 0 then
                    (\<lparr>yields = [(Blank, Searching), (NoResultsFound, ReadyForNewSearch)],
                      raised = None\<rparr>, st')
                  else
                    case cards L (df G) top of
                      Inl e \<Rightarrow> (\<lparr>yields = [(Blank, Searching)], raised = Some e\<rparr>, st')
                    | Inr cs \<Rightarrow>
                        (\<lparr>yields = [(Blank, Searching),
                                    (TopResults query cs, DisplayingTop (length top))],
                          raised = None\<rparr>, st'))))"

subsection \<open>Loading (lines 15 to 30)\<close>

text \<open>
  The three calls of the \<open>try\<close> block, in order: \<open>pd.read_csv\<close>, \<open>np.load\<close> and the
  construction of the encoder, each given by what it returns or raises (a missing file
  raises \<open>FileNotFoundError\<close>). The handler catches \<open>FileNotFoundError\<close> only: it prints
  the error line and the exception and calls \<open>exit()\<close> without an argument. Any other
  exception is not caught and ends the interpreter with a traceback. The lines printed
  are \<open>LoadingAssets\<close> (line 15), \<open>LoadingModel\<close> (22), \<open>AllLoaded\<close> (25),
  \<open>CouldNotFind\<close> (28) and \<open>Printed e\<close> (29).
\<close>

datatype message = LoadingAssets | LoadingModel | AllLoaded | CouldNotFind | Printed pyexn

datatype ('r, 'v) startup =
    Loaded "('r, 'v) globals"
  | SystemExit "int option"
  | Uncaught pyexn

definition handler :: "message list \<Rightarrow> pyexn \<Rightarrow> message list \<times> ('r, 'v) startup" where
  "handler out e =
     (if e = FileNotFoundError then (out @ [CouldNotFind, Printed e], SystemExit None)
      else (out, Uncaught e))"

definition load ::
  "pyexn + 'r list \<Rightarrow> pyexn + 'v list \<Rightarrow> pyexn + (pystr \<Rightarrow> pyexn + 'v) \<Rightarrow>
   message list \<times> ('r, 'v) startup" where
  "load read_csv np_load sentence_transformer =
     (case read_csv of
        Inl e \<Rightarrow> handler [LoadingAssets] e
      | Inr d \<Rightarrow>
          (case np_load of
             Inl e \<Rightarrow> handler [LoadingAssets] e
           | Inr m \<Rightarrow>
               (case sentence_transformer of
                  Inl e \<Rightarrow> handler [LoadingAssets, LoadingModel] e
                | Inr enc \<Rightarrow>
                    ([LoadingAssets, LoadingModel, AllLoaded],
                     Loaded \<lparr>df = d, corpus_embeddings = m, model = enc\<rparr>))))"

text \<open>
  The exit status of the interpreter: \<open>SystemExit\<close> with no code (or \<open>None\<close>) is status
  \<open>0\<close>, an uncaught exception is status \<open>1\<close>; a process that loaded goes on to build and
  launch the interface (lines 148 to 188) and has not exited.
\<close>

fun exit_status :: "('r, 'v) startup \<Rightarrow> int option" where
  "exit_status (Loaded G) = None"
| "exit_status (SystemExit None) = Some 0"
| "exit_status (SystemExit (Some n)) = Some n"
| "exit_status (Uncaught e) = Some 1"

fun launched :: "('r, 'v) startup \<Rightarrow> bool" where
  "launched (Loaded G) = True"
| "launched (SystemExit c) = False"
| "launched (Uncaught e) = False"

subsection \<open>A small corpus\<close>

text \<open>
  Three records whose embeddings are unit vectors; the first two records carry the same
  embedding (the same video listed twice), so every query scores them equally. On unit
  vectors the cosine is the dot product. In \<open>demo_lib\<close> the positions are sorted with
  the index-stable argsort, in \<open>reverse_lib\<close> with the other one; a card is the title of
  its record, and the encoder sends a query to one of two unit vectors. \<open>failing_model\<close> is an
  encoder whose computation fails on every query.
\<close>

definition unit_cosine :: "real list \<Rightarrow> real list list \<Rightarrow> pyexn + real list" where
  "unit_cosine q Y = Inr (map (\<lambda>y. sum_list (map2 (*) q y)) Y)"

definition demo_lib :: "(real list, string, string) lib" where
  "demo_lib = \<lparr>cosine_rows = unit_cosine, argsort = stable_argsort, card = Inr\<rparr>"

definition reverse_lib :: "(real list, string, string) lib" where
  "reverse_lib = demo_lib\<lparr>argsort := reverse_argsort\<rparr>"

definition demo_model :: "pystr \<Rightarrow> pyexn + real list" where
  "demo_model q = (if even (length q) then Inr [0, 1] else Inr [1, 0])"

definition demo_globals :: "(string, real list) globals" where
  "demo_globals =
     \<lparr>df = [''first'', ''second'', ''third''],
      corpus_embeddings = [[1, 0], [1, 0], [0, 1]],
      model = demo_model\<rparr>"

definition failing_model :: "pystr \<Rightarrow> pyexn + real list" where
  "failing_model q = Inl RuntimeError"

text \<open>
  \<open>demo_queries n\<close> are the \<open>n\<close> distinct queries \<open>a\<close>, \<open>aa\<close>, \<open>aaa\<close>, and so on;
  \<open>failing_globals\<close> is the small corpus with the failing encoder;
  \<open>short_globals\<close> is a table of one record beside a matrix of two embeddings;
  \<open>empty_globals\<close> is a corpus with no records and no embeddings.
\<close>

definition demo_queries :: "nat \<Rightarrow> pystr list" where
  "demo_queries n = map (\<lambda>i. replicate (Suc i) 97) [0..<n]"

definition failing_globals :: "(string, real list) globals" where
  "failing_globals = demo_globals\<lparr>model := failing_model\<rparr>"

definition short_globals :: "(string, real list) globals" where
  "short_globals =
     \<lparr>df = [''first''], corpus_embeddings = [[1, 0], [0, 1]], model = demo_model\<rparr>"


section \<open>Properties\<close>

subsection \<open>Slicing, stripping and the argsort contract\<close>

lemma is_argsort_stable: "is_argsort a (stable_argsort a)"
  by (simp add: is_argsort_def stable_argsort_def)

lemma is_argsort_length: "is_argsort a p \<Longrightarrow> length p = length a"
  by (metis is_argsort_def length_upt minus_nat.diff_0 size_mset)

lemma is_argsort_set: "is_argsort a p \<Longrightarrow> set p = {0..<length a}"
  by (metis is_argsort_def set_mset_mset set_upt)

lemma is_argsort_distinct: "is_argsort a p \<Longrightarrow> distinct p"
  by (metis is_argsort_def distinct_upt mset_eq_imp_distinct_iff)

lemma slice_from_last: "0 < k \<Longrightarrow> k \<le> int (length xs) \<Longrightarrow> slice_from (- k) xs = drop (length xs - nat k) xs"
  unfolding slice_from_def Let_def
  by (auto simp: max_def nat_diff_distrib' intro!: arg_cong[where f="\<lambda>n. drop n xs"])

lemma slice_from_all: "int (length xs) \<le> k \<Longrightarrow> slice_from (- k) xs = xs"
  unfolding slice_from_def Let_def by (auto simp: max_def)

lemma slice_from_zero: "slice_from 0 xs = xs"
  unfolding slice_from_def Let_def by simp

lemma strip_empty_iff: "strip s = [] \<longleftrightarrow> (\<forall>c\<in>set s. isspace c)"
proof
  assume "strip s = []"
  then have all: "\<forall>x\<in>set (dropWhile isspace s). isspace x"
    by (simp add: strip_def dropWhile_eq_Nil_conv)
  have "dropWhile isspace s = []"
  proof (rule ccontr)
    assume ne: "dropWhile isspace s \<noteq> []"
    then have "\<not> isspace (hd (dropWhile isspace s))" by (rule hd_dropWhile)
    moreover have "hd (dropWhile isspace s) \<in> set (dropWhile isspace s)" using ne by simp
    ultimately show False using all by blast
  qed
  then show "\<forall>c\<in>set s. isspace c" by (simp add: dropWhile_eq_Nil_conv)
next
  assume "\<forall>c\<in>set s. isspace c"
  then have d: "dropWhile isspace s = []" by (simp add: dropWhile_eq_Nil_conv)
  show "strip s = []" unfolding strip_def d by simp
qed

lemma descending_rev_drop:
  assumes "sorted (map f p)"
  shows "sorted_wrt (\<lambda>x y. f y \<le> f x) (rev (drop n p))"
proof -
  have "sorted (map f (drop n p))" using assms by (simp add: drop_map[symmetric] sorted_wrt_drop)
  then have "sorted_wrt (\<lambda>x y. f x \<le> f y) (drop n p)" by (simp add: sorted_map)
  then show ?thesis by (simp add: sorted_wrt_rev)
qed

lemma left_out_below:
  assumes "sorted (map f p)" and "x \<in> set p" and "x \<notin> set (drop n p)" and "y \<in> set (drop n p)"
  shows "f x \<le> f y"
proof -
  have p: "p = take n p @ drop n p" by simp
  have "x \<in> set (take n p)" using assms(2,3) by (metis UnE append_take_drop_id set_append)
  moreover have "sorted (map f (take n p) @ map f (drop n p))" using assms(1) by (metis p map_append)
  ultimately show ?thesis using assms(4) by (auto simp: sorted_append)
qed

lemma strict_rev_drop:
  assumes "sorted (map f p)" and "distinct (map f p)"
  shows "sorted_wrt (\<lambda>x y. f y < f x) (rev (drop n p))"
proof -
  have "sorted_wrt (<) (map f p)" using assms by (simp add: strict_sorted_iff)
  then have "sorted_wrt (<) (map f (drop n p))" by (simp add: drop_map[symmetric] sorted_wrt_drop)
  then have "sorted_wrt (\<lambda>x y. f x < f y) (drop n p)" by (simp add: sorted_wrt_map)
  then show ?thesis by (simp add: sorted_wrt_rev)
qed

lemma argsort_distinct_scores:
  assumes "is_argsort a p" "distinct a"
  shows "distinct (map ((!) a) p)"
proof -
  have "distinct p" "set p = {0..<length a}" using assms(1) by (simp_all add: is_argsort_distinct is_argsort_set)
  then show ?thesis using assms(2) by (auto simp: distinct_map inj_on_def nth_eq_iff_index_eq)
qed

lemma is_argsort_reverse: "is_argsort a (reverse_argsort a)"
  by (simp add: is_argsort_def reverse_argsort_def)

text \<open>
  Insertion sort by key keeps elements with equal keys in the order of its input: when
  the input is ordered by \<open>r\<close>, the output is ordered by key and, among equal keys, by \<open>r\<close>.
\<close>

lemma insort_key_lex:
  assumes "sorted_wrt (\<lambda>x y. f x < f y \<or> (f x = f y \<and> r x y)) ys"
    and "\<forall>y\<in>set ys. r x y"
  shows "sorted_wrt (\<lambda>x y. f x < f y \<or> (f x = f y \<and> r x y)) (insort_key f x ys)"
  using assms
proof (induction ys)
  case Nil
  then show ?case by simp
next
  case (Cons y ys)
  show ?case
  proof (cases "f x \<le> f y")
    case True
    then show ?thesis using Cons.prems by (auto simp: less_le)
  next
    case False
    then show ?thesis using Cons by (auto simp: set_insort_key)
  qed
qed

lemma sort_key_lex:
  fixes f :: "nat \<Rightarrow> real"
  assumes "sorted_wrt r xs"
  shows "sorted_wrt (\<lambda>x y. f x < f y \<or> (f x = f y \<and> r x y)) (sort_key f xs)"
  using assms
proof (induction xs)
  case Nil
  then show ?case by simp
next
  case (Cons x xs)
  then show ?case by (simp add: insort_key_lex)
qed

lemma stable_argsort_lex:
  "sorted_wrt (\<lambda>x y. a ! x < a ! y \<or> (a ! x = a ! y \<and> x < y)) (stable_argsort a)"
  unfolding stable_argsort_def by (rule sort_key_lex) (simp add: sorted_wrt_iff_nth_less)

lemma reverse_argsort_lex:
  "sorted_wrt (\<lambda>x y. a ! x < a ! y \<or> (a ! x = a ! y \<and> y < x)) (reverse_argsort a)"
  unfolding reverse_argsort_def
  by (rule sort_key_lex) (simp only: sorted_wrt_rev, simp add: sorted_wrt_iff_nth_less)

text \<open>What the order of the argsort gives for the reversed slice of line 50.\<close>

lemma rev_drop_lex:
  fixes f :: "nat \<Rightarrow> real"
  assumes "sorted_wrt (\<lambda>x y. f x < f y \<or> (f x = f y \<and> r x y)) p"
    and "a < b" and "b < length (rev (drop n p))"
    and "f (rev (drop n p) ! a) = f (rev (drop n p) ! b)"
  shows "r (rev (drop n p) ! b) (rev (drop n p) ! a)"
proof -
  have "sorted_wrt (\<lambda>x y. f x < f y \<or> (f x = f y \<and> r x y)) (drop n p)"
    using assms(1) by (rule sorted_wrt_drop)
  then have "sorted_wrt (\<lambda>x y. f y < f x \<or> (f y = f x \<and> r y x)) (rev (drop n p))"
    by (simp add: sorted_wrt_rev)
  from sorted_wrt_nth_less[OF this assms(2,3)] assms(4) show ?thesis by simp
qed

lemma rev_drop_positions:
  assumes "a < b" and "b < length (rev (drop n p))"
  shows "\<exists>a' b'. a' < b' \<and> b' < length p \<and> p ! a' = rev (drop n p) ! b \<and>
                 p ! b' = rev (drop n p) ! a"
proof -
  let ?m = "length p - n"
  have b: "b < ?m" and a: "a < ?m" using assms by simp_all
  have ra: "rev (drop n p) ! a = p ! (n + (?m - Suc a))"
    using a by (simp add: rev_nth)
  have rb: "rev (drop n p) ! b = p ! (n + (?m - Suc b))"
    using b by (simp add: rev_nth)
  have "n + (?m - Suc b) < n + (?m - Suc a)" using assms(1) a b by linarith
  moreover have "n + (?m - Suc a) < length p" using a by linarith
  ultimately show ?thesis using ra rb by metis
qed

subsection \<open>The ranked positions and the rendering loop\<close>

lemma cards_Inr:
  "cards L rows idxs = Inr cs \<Longrightarrow>
   length cs = length idxs \<and>
   (\<forall>n<length idxs. idxs ! n < length rows \<and> card L (rows ! (idxs ! n)) = Inr (cs ! n))"
proof (induction idxs arbitrary: cs)
  case Nil
  then show ?case by simp
next
  case (Cons i rest)
  from Cons.prems obtain c cs' where
    i: "i < length rows" and c: "card L (rows ! i) = Inr c"
    and r: "cards L rows rest = Inr cs'" and cs: "cs = c # cs'"
    by (auto split: if_splits sum.splits)
  from Cons.IH[OF r] show ?case using i c cs by (auto simp: nth_Cons split: nat.splits)
qed

lemma cards_out_of_range:
  "i \<in> set idxs \<Longrightarrow> length rows \<le> i \<Longrightarrow> \<exists>e. cards L rows idxs = Inl e"
  by (induction idxs) (auto split: sum.splits)

lemma search_generator_scored:
  assumes "strip q \<noteq> []"
    and "encode_query (model G) q st = (Inr qv, st')"
    and "cosine_similarity L qv (corpus_embeddings G) = Inr sims"
  shows "search_generator L G st q k =
           (if top_k_indices L sims k = [] then
              (\<lparr>yields = [(Blank, Searching), (NoResultsFound, ReadyForNewSearch)],
                raised = None\<rparr>, st')
            else case cards L (df G) (top_k_indices L sims k) of
                   Inl e \<Rightarrow> (\<lparr>yields = [(Blank, Searching)], raised = Some e\<rparr>, st')
                 | Inr cs \<Rightarrow>
                     (\<lparr>yields = [(Blank, Searching),
                                 (TopResults q cs,
                                  DisplayingTop (length (top_k_indices L sims k)))],
                       raised = None\<rparr>, st'))"
  using assms by (simp add: search_generator_def Let_def)


lemma top_k_last:
  assumes "is_argsort a (argsort L a)" and "0 < k" and "k \<le> int (length a)"
  shows "top_k_indices L a k = rev (drop (length a - nat k) (argsort L a))"
  using assms by (simp add: top_k_indices_def slice_from_last is_argsort_length)

lemma top_k_all:
  assumes "is_argsort a (argsort L a)" and "k = 0 \<or> int (length a) \<le> k"
  shows "top_k_indices L a k = rev (argsort L a)"
  using assms by (auto simp: top_k_indices_def slice_from_all slice_from_zero is_argsort_length)

lemma top_k_suffix: "\<exists>n. top_k_indices L a k = rev (drop n (argsort L a))"
  unfolding top_k_indices_def slice_from_def Let_def by blast

lemma top_k_facts:
  assumes "is_argsort a (argsort L a)"
  shows "distinct (top_k_indices L a k)"
    and "set (top_k_indices L a k) \<subseteq> {0..<length a}"
    and "sorted_wrt (\<lambda>i j. a ! j \<le> a ! i) (top_k_indices L a k)"
    and "\<And>i j. i < length a \<Longrightarrow> i \<notin> set (top_k_indices L a k) \<Longrightarrow> j \<in> set (top_k_indices L a k) \<Longrightarrow> a ! i \<le> a ! j"
    and "distinct a \<Longrightarrow> sorted_wrt (\<lambda>i j. a ! j < a ! i) (top_k_indices L a k)"
proof -
  obtain n where t: "top_k_indices L a k = rev (drop n (argsort L a))"
    using top_k_suffix by blast
  have s: "sorted (map ((!) a) (argsort L a))" using assms by (simp add: is_argsort_def)
  show "distinct (top_k_indices L a k)"
    using is_argsort_distinct[OF assms] by (simp add: t)
  show "set (top_k_indices L a k) \<subseteq> {0..<length a}"
    using is_argsort_set[OF assms] set_drop_subset[of n "argsort L a"] by (simp add: t)
  show "sorted_wrt (\<lambda>i j. a ! j \<le> a ! i) (top_k_indices L a k)"
    unfolding t using s by (rule descending_rev_drop)
  show "a ! i \<le> a ! j" if "i < length a" "i \<notin> set (top_k_indices L a k)" "j \<in> set (top_k_indices L a k)" for i j
  proof (rule left_out_below[OF s])
    show "i \<in> set (argsort L a)" using that(1) is_argsort_set[OF assms] by simp
    show "i \<notin> set (drop n (argsort L a))" using that(2) by (simp add: t)
    show "j \<in> set (drop n (argsort L a))" using that(3) by (simp add: t)
  qed
  show "sorted_wrt (\<lambda>i j. a ! j < a ! i) (top_k_indices L a k)" if "distinct a"
    unfolding t using s argsort_distinct_scores[OF assms that] by (rule strict_rev_drop)
qed

subsection \<open>The encoder cache\<close>

lemma encode_all_snoc:
  "encode_all enc (qs @ [q]) = snd (encode_query enc q (encode_all enc qs))"
  by (simp add: encode_all_def)

lemma encode_all_Nil: "encode_all enc [] = cache_clear"
  by (simp add: encode_all_def)

lemma encode_query_sound:
  assumes "\<forall>e\<in>set (cache st). enc (fst e) = Inr (snd e)"
  shows "\<forall>e\<in>set (cache (snd (encode_query enc q st))). enc (fst e) = Inr (snd e)"
proof (cases "map_of (cache st) q")
  case None
  then show ?thesis using assms
    by (auto simp: encode_query_def split: sum.splits dest: in_set_butlastD)
next
  case (Some v)
  then have "(q, v) \<in> set (cache st)" by (rule map_of_SomeD)
  then show ?thesis using assms Some by (auto simp: encode_query_def)
qed

lemma encode_all_sound: "\<forall>e\<in>set (cache (encode_all enc qs)). enc (fst e) = Inr (snd e)"
proof (induction qs rule: rev_induct)
  case Nil
  then show ?case by (simp add: encode_all_Nil cache_clear_def)
next
  case (snoc q qs)
  then show ?case unfolding encode_all_snoc by (rule encode_query_sound)
qed

lemma encode_query_value:
  assumes "\<forall>e\<in>set (cache st). enc (fst e) = Inr (snd e)"
  shows "fst (encode_query enc q st) = enc q"
proof (cases "map_of (cache st) q")
  case None
  then show ?thesis by (simp add: encode_query_def split: sum.splits)
next
  case (Some v)
  then have "(q, v) \<in> set (cache st)" by (rule map_of_SomeD)
  then show ?thesis using assms Some by (auto simp: encode_query_def)
qed

text \<open>
  For an encoder that is a function of its text the cache is transparent: after any
  calls, \<open>encode_query\<close> returns what the encoder computes for the query.
\<close>

lemma encode_query_transparent:
  "fst (encode_query enc q (encode_all enc qs)) = enc q"
  by (simp add: encode_query_value encode_all_sound)

lemma encode_query_distinct:
  assumes "distinct (map fst (cache st))"
  shows "distinct (map fst (cache (snd (encode_query enc q st))))"
proof (cases "map_of (cache st) q")
  case None
  then have "q \<notin> fst ` set (cache st)" by (simp add: map_of_eq_None_iff)
  then show ?thesis using assms None
    by (auto simp: encode_query_def map_butlast distinct_butlast split: sum.splits
        dest: in_set_butlastD)
next
  case (Some v)
  then show ?thesis using assms by (auto simp: encode_query_def distinct_map_filter)
qed

lemma encode_all_distinct: "distinct (map fst (cache (encode_all enc qs)))"
proof (induction qs rule: rev_induct)
  case Nil
  then show ?case by (simp add: encode_all_Nil cache_clear_def)
next
  case (snoc q qs)
  then show ?case unfolding encode_all_snoc by (rule encode_query_distinct)
qed

lemma encode_query_bounded:
  assumes "length (cache st) \<le> maxsize"
  shows "length (cache (snd (encode_query enc q st))) \<le> maxsize"
proof (cases "map_of (cache st) q")
  case None
  then show ?thesis using assms
    by (auto simp: encode_query_def maxsize_def split: sum.splits)
next
  case (Some v)
  then have "(q, v) \<in> set (cache st)" by (rule map_of_SomeD)
  then have "length (filter (\<lambda>e. fst e \<noteq> q) (cache st)) < length (cache st)"
    by (intro length_filter_less[where x="(q, v)"]) simp_all
  then show ?thesis using assms Some by (simp add: encode_query_def)
qed

lemma encode_all_bounded: "length (cache (encode_all enc qs)) \<le> maxsize"
proof (induction qs rule: rev_induct)
  case Nil
  then show ?case by (simp add: encode_all_Nil cache_clear_def)
next
  case (snoc q qs)
  then show ?case unfolding encode_all_snoc by (rule encode_query_bounded)
qed

lemma encode_query_miss:
  assumes "q \<notin> fst ` set (cache st)" and "enc q = Inr v"
  shows "encode_query enc q st =
           (Inr v, st\<lparr>cache := (q, v) # (if maxsize \<le> length (cache st) then butlast (cache st)
                                            else cache st),
                       calls := calls st + 1\<rparr>)"
proof -
  have "map_of (cache st) q = None" using assms(1) by (simp add: map_of_eq_None_iff)
  then show ?thesis using assms(2) by (simp add: encode_query_def)
qed

lemma encode_query_hit_calls:
  assumes "q \<in> fst ` set (cache st)"
  shows "calls (snd (encode_query enc q st)) = calls st"
proof -
  obtain v where "map_of (cache st) q = Some v"
    using assms by (metis map_of_eq_None_iff not_None_eq)
  then show ?thesis by (simp add: encode_query_def)
qed

lemma encode_query_miss_calls:
  assumes "q \<notin> fst ` set (cache st)"
  shows "calls (snd (encode_query enc q st)) = calls st + 1"
proof -
  have "map_of (cache st) q = None" using assms by (simp add: map_of_eq_None_iff)
  then show ?thesis by (simp add: encode_query_def split: sum.splits)
qed

lemma encode_all_fresh:
  assumes "distinct qs" and "length qs \<le> maxsize" and "\<forall>q\<in>set qs. enc q = Inr (f q)"
  shows "cache (encode_all enc qs) = map (\<lambda>q. (q, f q)) (rev qs) \<and>
         calls (encode_all enc qs) = length qs"
  using assms
proof (induction qs rule: rev_induct)
  case Nil
  then show ?case by (simp add: encode_all_Nil cache_clear_def)
next
  case (snoc q qs)
  then have ih: "cache (encode_all enc qs) = map (\<lambda>q. (q, f q)) (rev qs)"
    "calls (encode_all enc qs) = length qs" by simp_all
  have "q \<notin> fst ` set (cache (encode_all enc qs))"
    using snoc.prems(1) by (auto simp: ih(1))
  moreover have "enc q = Inr (f q)" using snoc.prems(3) by simp
  ultimately have "encode_query enc q (encode_all enc qs) =
       (Inr (f q), (encode_all enc qs)\<lparr>cache := (q, f q) # cache (encode_all enc qs),
                                       calls := calls (encode_all enc qs) + 1\<rparr>)"
    using snoc.prems(2) by (simp add: encode_query_miss ih(1))
  then show ?case by (simp add: encode_all_snoc ih)
qed

lemma encode_query_cache_only:
  assumes "cache st1 = cache st2"
  shows "fst (encode_query enc q st1) = fst (encode_query enc q st2)"
    and "cache (snd (encode_query enc q st1)) = cache (snd (encode_query enc q st2))"
  using assms by (simp_all add: encode_query_def split: option.splits sum.splits)

lemma encode_query_failure:
  assumes "fst (encode_query enc q st) = Inl e"
  shows "encode_query enc q st = (Inl e, st\<lparr>calls := calls st + 1\<rparr>)"
  using assms by (auto simp: encode_query_def split: option.splits sum.splits)

lemma search_generator_cache_only:
  assumes "cache st1 = cache st2"
  shows "fst (search_generator L G st1 q k) = fst (search_generator L G st2 q k)"
proof -
  obtain r1 s1 where a: "encode_query (model G) q st1 = (r1, s1)" by (cases "encode_query (model G) q st1")
  obtain r2 s2 where b: "encode_query (model G) q st2 = (r2, s2)" by (cases "encode_query (model G) q st2")
  have "r1 = r2" using encode_query_cache_only(1)[OF assms, of "model G" q] a b by simp
  then show ?thesis
    by (simp add: search_generator_def a b Let_def split: sum.splits)
qed

text \<open>The cache lists the queries by their last use.\<close>

lemma filter_take_member:
  assumes "distinct xs" and "q \<in> set (take n xs)"
  shows "filter (\<lambda>y. y \<noteq> q) (take n xs) = take (n - 1) (filter (\<lambda>y. y \<noteq> q) xs)"
  using assms
proof (induction xs arbitrary: n)
  case Nil
  then show ?case by simp
next
  case (Cons x xs)
  obtain m where n: "n = Suc m" using Cons.prems(2) by (cases n) auto
  show ?case
  proof (cases "x = q")
    case True
    then have "q \<notin> set xs" using Cons.prems(1) by simp
    then have "filter (\<lambda>y. y \<noteq> q) xs = xs" by (auto simp: filter_id_conv)
    moreover have "filter (\<lambda>y. y \<noteq> q) (take m xs) = take m xs"
      using \<open>q \<notin> set xs\<close> by (auto simp: filter_id_conv dest: in_set_takeD)
    ultimately show ?thesis using True n by simp
  next
    case False
    then have q: "q \<in> set (take m xs)" using Cons.prems(2) n by simp
    then obtain m' where m: "m = Suc m'" by (cases m) auto
    have "filter (\<lambda>y. y \<noteq> q) (take m xs) = take (m - 1) (filter (\<lambda>y. y \<noteq> q) xs)"
      using Cons.IH[OF _ q] Cons.prems(1) by simp
    then show ?thesis using False n m by simp
  qed
qed

lemma take_filter_absent:
  assumes "q \<notin> set (take n xs)"
  shows "take n (filter (\<lambda>y. y \<noteq> q) xs) = take n xs"
  using assms
proof (induction xs arbitrary: n)
  case Nil
  then show ?case by simp
next
  case (Cons x xs)
  then show ?case by (cases n) auto
qed

lemma evict_take:
  assumes "0 < n"
  shows "(if n \<le> length (take n xs) then butlast (take n xs) else take n xs) = take (n - 1) xs"
proof (cases "n \<le> length xs")
  case True
  then show ?thesis by (simp add: butlast_take)
next
  case False
  then show ?thesis using assms by simp
qed

lemma take_Cons_pos: "0 < n \<Longrightarrow> take n (x # xs) = x # take (n - 1) xs"
  by (cases n) simp_all

lemma remdups_snoc: "remdups (qs @ [q]) = filter (\<lambda>y. y \<noteq> q) (remdups qs) @ [q]"
  by (induction qs) auto

lemma recency_snoc:
  "rev (remdups (qs @ [q])) = q # filter (\<lambda>y. y \<noteq> q) (rev (remdups qs))"
  by (simp add: remdups_snoc rev_filter)

lemma encode_query_keys_hit:
  assumes "q \<in> fst ` set (cache st)"
  shows "map fst (cache (snd (encode_query enc q st))) =
           q # filter (\<lambda>y. y \<noteq> q) (map fst (cache st))"
proof -
  obtain v where "map_of (cache st) q = Some v"
    using assms by (metis map_of_eq_None_iff not_None_eq)
  then show ?thesis by (simp add: encode_query_def filter_map comp_def)
qed

lemma encode_query_keys_failed:
  assumes "q \<notin> fst ` set (cache st)" and "enc q = Inl e"
  shows "cache (snd (encode_query enc q st)) = cache st"
proof -
  have "map_of (cache st) q = None" using assms(1) by (simp add: map_of_eq_None_iff)
  then show ?thesis using assms(2) by (simp add: encode_query_def)
qed

lemma encode_all_recency:
  "map fst (cache (encode_all enc qs)) =
     take maxsize (rev (remdups (filter (\<lambda>x. \<not> isl (enc x)) qs)))"
proof (induction qs rule: rev_induct)
  case Nil
  then show ?case by (simp add: encode_all_Nil cache_clear_def)
next
  case (snoc q qs)
  let ?st = "encode_all enc qs"
  let ?R = "rev (remdups (filter (\<lambda>x. \<not> isl (enc x)) qs))"
  have keys: "map fst (cache ?st) = take maxsize ?R" by (rule snoc.IH)
  have dR: "distinct ?R" by simp
  have pos: "0 < maxsize" by (simp add: maxsize_def)
  show ?case
  proof (cases "q \<in> fst ` set (cache ?st)")
    case True
    then have inR: "q \<in> set (take maxsize ?R)" using keys by (metis list.set_map)
    then have "q \<in> set qs \<and> \<not> isl (enc q)" by (auto dest: in_set_takeD)
    then have ok: "\<not> isl (enc q)" by simp
    have "map fst (cache (encode_all enc (qs @ [q]))) =
            q # filter (\<lambda>y. y \<noteq> q) (take maxsize ?R)"
      unfolding encode_all_snoc using encode_query_keys_hit[OF True] keys by simp
    also have "\<dots> = q # take (maxsize - 1) (filter (\<lambda>y. y \<noteq> q) ?R)"
      using filter_take_member[OF dR inR] by simp
    also have "\<dots> = take maxsize (q # filter (\<lambda>y. y \<noteq> q) ?R)"
      using pos by (simp add: take_Cons_pos)
    also have "\<dots> = take maxsize (rev (remdups (filter (\<lambda>x. \<not> isl (enc x)) (qs @ [q]))))"
      using ok recency_snoc[of "filter (\<lambda>x. \<not> isl (enc x)) qs" q] by simp
    finally show ?thesis .
  next
    case False
    then have notin: "q \<notin> set (take maxsize ?R)" using keys by (metis list.set_map)
    show ?thesis
    proof (cases "enc q")
      case (Inl e)
      then have "cache (encode_all enc (qs @ [q])) = cache ?st"
        unfolding encode_all_snoc using encode_query_keys_failed[OF False] by simp
      then show ?thesis using keys Inl by simp
    next
      case (Inr v)
      have len: "length (cache ?st) = length (take maxsize ?R)"
        using keys by (metis length_map)
      have "map fst (cache (encode_all enc (qs @ [q]))) =
              q # (if maxsize \<le> length (cache ?st) then butlast (take maxsize ?R)
                   else take maxsize ?R)"
        unfolding encode_all_snoc using encode_query_miss[where enc=enc and q=q and st="encode_all enc qs" and v=v] False Inr keys
        by (simp add: map_butlast)
      also have "\<dots> = q # take (maxsize - 1) ?R"
        unfolding len by (simp only: evict_take[OF pos])
      also have "\<dots> = q # take (maxsize - 1) (filter (\<lambda>y. y \<noteq> q) ?R)"
      proof -
        have "q \<notin> set (take (maxsize - 1) ?R)"
          using notin by (metis diff_le_self set_take_subset_set_take subsetD)
        then show ?thesis by (simp add: take_filter_absent)
      qed
      also have "\<dots> = take maxsize (q # filter (\<lambda>y. y \<noteq> q) ?R)"
        using pos by (simp add: take_Cons_pos)
      also have "\<dots> = take maxsize (rev (remdups (filter (\<lambda>x. \<not> isl (enc x)) (qs @ [q]))))"
        using Inr recency_snoc[of "filter (\<lambda>x. \<not> isl (enc x)) qs" q] by simp
      finally show ?thesis .
    qed
  qed
qed

subsection \<open>Runs on the small corpus\<close>

lemma search_generator_results:
  assumes "strip q \<noteq> []"
    and "encode_query (model G) q st = (Inr qv, st')"
    and "cosine_similarity L qv (corpus_embeddings G) = Inr sims"
    and "top_k_indices L sims k = idxs" and "idxs \<noteq> []"
    and "cards L (df G) idxs = Inr cs"
  shows "search_generator L G st q k =
           (\<lparr>yields = [(Blank, Searching), (TopResults q cs, DisplayingTop (length idxs))],
             raised = None\<rparr>, st')"
  using assms(4-6) by (simp add: search_generator_scored[OF assms(1-3)])

lemma demo_strip: "strip [97] \<noteq> []"
  by (simp add: strip_def isspace_def)

lemma demo_encode:
  "encode_query (model demo_globals) [97] cache_clear =
     (Inr [1, 0], \<lparr>cache = [([97], [1, 0])], calls = 1\<rparr>)"
  by (simp add: encode_query_def cache_clear_def demo_globals_def demo_model_def maxsize_def)

lemma demo_cosine:
  "cosine_similarity demo_lib [1, 0] (corpus_embeddings demo_globals) = Inr [1, 1, 0]"
  by (simp add: cosine_similarity_def demo_lib_def demo_globals_def unit_cosine_def)

lemma demo_length: "length [1, 1, 0 :: real] = length (corpus_embeddings demo_globals)"
  by (simp add: demo_globals_def)

lemma demo_argsort: "argsort demo_lib a = stable_argsort a"
  by (simp add: demo_lib_def)

lemma demo_is_argsort: "is_argsort a (argsort demo_lib a)"
  by (simp add: demo_argsort is_argsort_stable)

lemma demo_sorted: "argsort demo_lib [1, 1, 0] = [2, 0, 1]"
  by (simp add: demo_argsort stable_argsort_def upt_rec)

lemma demo_top_2: "top_k_indices demo_lib [1, 1, 0] 2 = [1, 0]"
  by (simp add: top_k_indices_def demo_sorted slice_from_def)

lemma demo_top_3: "top_k_indices demo_lib [1, 1, 0] 3 = [1, 0, 2]"
  by (simp add: top_k_indices_def demo_sorted slice_from_def)


lemma demo_top_0: "top_k_indices demo_lib [1, 1, 0] 0 = [1, 0, 2]"
  by (simp add: top_k_indices_def demo_sorted slice_from_def)

lemma reverse_argsort_lib: "argsort reverse_lib [1, 1, 0] = reverse_argsort [1, 1, 0]"
  by (simp add: reverse_lib_def)

lemma reverse_sorted: "argsort reverse_lib [1, 1, 0] = [2, 1, 0]"
  by (simp add: reverse_lib_def reverse_argsort_def upt_rec)

lemma reverse_top_3: "top_k_indices reverse_lib [1, 1, 0] 3 = [0, 1, 2]"
  by (simp add: top_k_indices_def reverse_sorted slice_from_def)

lemma demo_cards_2: "cards demo_lib (df demo_globals) [1, 0] = Inr [''second'', ''first'']"
  by (simp add: demo_lib_def demo_globals_def)

lemma demo_cards_3:
  "cards demo_lib (df demo_globals) [1, 0, 2] = Inr [''second'', ''first'', ''third'']"
  by (simp add: demo_lib_def demo_globals_def)

lemma demo_queries_length: "length (demo_queries n) = n"
  by (simp add: demo_queries_def)

lemma demo_queries_distinct: "distinct (demo_queries n)"
  by (simp add: demo_queries_def distinct_map inj_on_def)

lemma demo_queries_cache:
  assumes "n \<le> maxsize"
  shows "cache (encode_all demo_model (demo_queries n)) =
           map (\<lambda>q. (q, if even (length q) then [0, 1] else [1, 0])) (rev (demo_queries n))"
    and "calls (encode_all demo_model (demo_queries n)) = n"
proof -
  have v: "\<forall>q\<in>set (demo_queries n).
          demo_model q = Inr (if even (length q) then [0, 1] else [1, 0])"
    by (simp add: demo_model_def)
  have l: "length (demo_queries n) \<le> maxsize" using assms by (simp add: demo_queries_def)
  note f = encode_all_fresh[OF demo_queries_distinct l v]
  show "cache (encode_all demo_model (demo_queries n)) =
           map (\<lambda>q. (q, if even (length q) then [0, 1] else [1, 0])) (rev (demo_queries n))"
    by (rule f[THEN conjunct1])
  show "calls (encode_all demo_model (demo_queries n)) = n"
    using f[THEN conjunct2] by (simp add: demo_queries_def)
qed

lemma demo_queries_full:
  "length (cache (encode_all demo_model (demo_queries 128))) = maxsize"
  "replicate 129 97 \<notin> fst ` set (cache (encode_all demo_model (demo_queries 128)))"
  "fst (last (cache (encode_all demo_model (demo_queries 128)))) = [97]"
  "calls (encode_all demo_model (demo_queries 128)) = 128"
proof -
  have m: "(128::nat) \<le> maxsize" by (simp add: maxsize_def)
  note c = demo_queries_cache[OF m]
  show "length (cache (encode_all demo_model (demo_queries 128))) = maxsize"
    unfolding c(1) by (simp add: demo_queries_length maxsize_def)
  show "replicate 129 97 \<notin> fst ` set (cache (encode_all demo_model (demo_queries 128)))"
    unfolding c(1) by (auto simp: demo_queries_def image_iff replicate_eq_replicate simp del: replicate_Suc)
  have "demo_queries 128 = [97] # map (\<lambda>i. replicate (Suc i) 97) [1..<128]"
    by (simp add: demo_queries_def upt_conv_Cons)
  then show "fst (last (cache (encode_all demo_model (demo_queries 128)))) = [97]"
    unfolding c(1) by (simp add: last_map last_rev)
  show "calls (encode_all demo_model (demo_queries 128)) = 128" by (rule c(2))
qed

lemma demo_model_129: "demo_model (replicate 129 97) = Inr [1, 0]"
  by (simp add: demo_model_def)

lemma failing_encode:
  "encode_query (model failing_globals) [97] cache_clear =
     (Inl RuntimeError, \<lparr>cache = [], calls = 1\<rparr>)"
  by (simp add: encode_query_def cache_clear_def failing_globals_def failing_model_def)

lemma load_ok:
  "load (Inr d) (Inr m) (Inr enc) =
     ([LoadingAssets, LoadingModel, AllLoaded],
      Loaded \<lparr>df = d, corpus_embeddings = m, model = enc\<rparr>)"
  by (simp add: load_def)

lemma short_load:
  "load (Inr (df short_globals)) (Inr (corpus_embeddings short_globals))
        (Inr (model short_globals)) =
     ([LoadingAssets, LoadingModel, AllLoaded], Loaded short_globals)"
  by (simp add: load_ok)

lemma short_rows:
  "length (df short_globals) = 1" "length (corpus_embeddings short_globals) = 2"
  by (simp_all add: short_globals_def)

lemma short_encode:
  "encode_query (model short_globals) [97] cache_clear =
     (Inr [1, 0], \<lparr>cache = [([97], [1, 0])], calls = 1\<rparr>)"
  by (simp add: encode_query_def cache_clear_def short_globals_def demo_model_def maxsize_def)

lemma short_cosine:
  "cosine_similarity demo_lib [1, 0] (corpus_embeddings short_globals) = Inr [1, 0]"
  by (simp add: cosine_similarity_def demo_lib_def short_globals_def unit_cosine_def)

lemma short_sorted: "argsort demo_lib [1, 0] = [1, 0]"
  by (simp add: demo_argsort stable_argsort_def upt_rec)

lemma short_top_1: "top_k_indices demo_lib [1, 0] 1 = [0]"
  by (simp add: top_k_indices_def short_sorted slice_from_def)

lemma short_top_5: "top_k_indices demo_lib [1, 0] 5 = [0, 1]"
  by (simp add: top_k_indices_def short_sorted slice_from_def)

lemma short_cards_1: "cards demo_lib (df short_globals) [0] = Inr [''first'']"
  by (simp add: demo_lib_def short_globals_def)

lemma short_cards_5: "cards demo_lib (df short_globals) [0, 1] = Inl IndexError"
  by (simp add: demo_lib_def short_globals_def)

section \<open>The claims\<close>

subsection \<open>Ranking\<close>

text \<open>
  C1 (as amended). For a query that is not blank, whose encoding and similarity
  computation succeed with one score per corpus row, and a \<open>k\<close> with \<open>0 < k \<le> N\<close>
  (\<open>N\<close> the corpus size), the generator yields the searching status and then exactly
  \<open>k\<close> cards, those of the rows \<open>top_k_indices\<close> in order (given that each selected row
  has a record and renders). The \<open>k\<close> positions are distinct rows of the corpus, every
  row left out scores no more than every row selected, and the scores are descending:
  each is at least the next. Equal scores may stand side by side; the order is strictly
  descending when the scores of the corpus are pairwise distinct. This holds for every
  argsort that meets the contract \<open>is_argsort\<close>.
\<close>

theorem search_returns_k_descending:
  assumes "strip q \<noteq> []"
    and "encode_query (model G) q st = (Inr qv, st')"
    and "cosine_similarity L qv (corpus_embeddings G) = Inr sims"
    and "length sims = length (corpus_embeddings G)"
    and "is_argsort sims (argsort L sims)"
    and "0 < k" and "k \<le> int (length (corpus_embeddings G))"
    and "cards L (df G) (top_k_indices L sims k) = Inr cs"
  shows "search_generator L G st q k =
           (\<lparr>yields = [(Blank, Searching), (TopResults q cs, DisplayingTop (nat k))],
             raised = None\<rparr>, st') \<and>
         length cs = nat k \<and>
         length (top_k_indices L sims k) = nat k \<and>
         distinct (top_k_indices L sims k) \<and>
         set (top_k_indices L sims k) \<subseteq> {0..<length (corpus_embeddings G)} \<and>
         (\<forall>n<nat k. card L (df G ! (top_k_indices L sims k ! n)) = Inr (cs ! n)) \<and>
         sorted_wrt (\<lambda>i j. sims ! j \<le> sims ! i) (top_k_indices L sims k) \<and>
         (\<forall>i<length sims. i \<notin> set (top_k_indices L sims k) \<longrightarrow>
            (\<forall>j\<in>set (top_k_indices L sims k). sims ! i \<le> sims ! j)) \<and>
         (distinct sims \<longrightarrow> sorted_wrt (\<lambda>i j. sims ! j < sims ! i) (top_k_indices L sims k))"
proof -
  let ?top = "top_k_indices L sims k"
  have k: "k \<le> int (length sims)" using assms(4,7) by simp
  have len: "length ?top = nat k"
    using assms(6) k by (simp add: top_k_last[OF assms(5) assms(6) k] is_argsort_length[OF assms(5)])
  then have ne: "?top \<noteq> []" using assms(6) by auto
  have gen: "search_generator L G st q k =
           (\<lparr>yields = [(Blank, Searching), (TopResults q cs, DisplayingTop (nat k))],
             raised = None\<rparr>, st')"
    using ne assms(8) len by (simp add: search_generator_scored[OF assms(1-3)])
  have cs: "length cs = nat k" "\<forall>n<nat k. card L (df G ! (?top ! n)) = Inr (cs ! n)"
    using cards_Inr[OF assms(8)] len by simp_all
  show ?thesis
    using gen cs len top_k_facts[OF assms(5), where k=k] assms(4) by simp
qed

theorem search_returns_k_descending_witness:
  "strip [97] \<noteq> [] \<and> (0::int) < 2 \<and> 2 \<le> int (length (corpus_embeddings demo_globals)) \<and>
   search_generator demo_lib demo_globals cache_clear [97] 2 =
     (\<lparr>yields = [(Blank, Searching),
                 (TopResults [97] [''second'', ''first''], DisplayingTop 2)],
       raised = None\<rparr>,
      \<lparr>cache = [([97], [1, 0])], calls = 1\<rparr>) \<and>
   length (top_k_indices demo_lib [1, 1, 0] 2) = 2"
proof -
  have k: "(0::int) < 2" "2 \<le> int (length (corpus_embeddings demo_globals))"
    by (simp_all add: demo_globals_def)
  have c: "cards demo_lib (df demo_globals) (top_k_indices demo_lib [1, 1, 0] 2) =
             Inr [''second'', ''first'']"
    by (simp only: demo_top_2 demo_cards_2)
  show ?thesis
    using search_returns_k_descending
      [OF demo_strip demo_encode demo_cosine demo_length demo_is_argsort k c] demo_strip k
    by simp
qed

text \<open>
  The order need not be strict: on the small corpus the first two rows score \<open>1\<close> for
  the query \<open>a\<close>, and with \<open>k = 2\<close> the two results have equal scores.
\<close>

theorem strictly_descending_counterexample:
  "strip [97] \<noteq> [] \<and> (0::int) < 2 \<and> 2 \<le> int (length (corpus_embeddings demo_globals)) \<and>
   cosine_similarity demo_lib [1, 0] (corpus_embeddings demo_globals) = Inr [1, 1, 0] \<and>
   search_generator demo_lib demo_globals cache_clear [97] 2 =
     (\<lparr>yields = [(Blank, Searching),
                 (TopResults [97] [''second'', ''first''], DisplayingTop 2)],
       raised = None\<rparr>,
      \<lparr>cache = [([97], [1, 0])], calls = 1\<rparr>) \<and>
   top_k_indices demo_lib [1, 1, 0] 2 = [1, 0] \<and>
   map ((!) [1, 1, 0 :: real]) (top_k_indices demo_lib [1, 1, 0] 2) = [1, 1] \<and>
   \<not> [1, 1, 0 :: real] ! 0 < [1, 1, 0] ! 1"
proof -
  have "search_generator demo_lib demo_globals cache_clear [97] 2 =
     (\<lparr>yields = [(Blank, Searching),
                 (TopResults [97] [''second'', ''first''], DisplayingTop 2)],
       raised = None\<rparr>,
      \<lparr>cache = [([97], [1, 0])], calls = 1\<rparr>)"
    using search_generator_results
      [OF demo_strip demo_encode demo_cosine demo_top_2 _ demo_cards_2]
    by simp
  then show ?thesis
    using demo_strip demo_cosine by (simp add: demo_top_2 demo_globals_def)
qed

text \<open>
  C2 (as amended). The order of two rows with exactly equal scores is not fixed by the
  script: line 50 lists the selected rows in the reverse of the order in which
  \<open>np.argsort\<close> returned them, and \<open>np.argsort\<close> with its default kind promises no
  order among equal elements. Both orders meet its contract: with an argsort that keeps
  equal scores in index order the row with the higher index comes first, with one that
  keeps them in reverse index order the row with the lower index comes first.
\<close>

theorem tie_order_follows_argsort:
  "(\<forall>a b. a < b \<and> b < length (top_k_indices L sims k) \<longrightarrow>
      (\<exists>a' b'. a' < b' \<and> b' < length (argsort L sims) \<and>
         argsort L sims ! a' = top_k_indices L sims k ! b \<and>
         argsort L sims ! b' = top_k_indices L sims k ! a)) \<and>
   is_argsort sims (stable_argsort sims) \<and>
   is_argsort sims (reverse_argsort sims) \<and>
   (argsort L sims = stable_argsort sims \<longrightarrow>
      (\<forall>a b. a < b \<and> b < length (top_k_indices L sims k) \<and>
         sims ! (top_k_indices L sims k ! a) = sims ! (top_k_indices L sims k ! b) \<longrightarrow>
         top_k_indices L sims k ! b < top_k_indices L sims k ! a)) \<and>
   (argsort L sims = reverse_argsort sims \<longrightarrow>
      (\<forall>a b. a < b \<and> b < length (top_k_indices L sims k) \<and>
         sims ! (top_k_indices L sims k ! a) = sims ! (top_k_indices L sims k ! b) \<longrightarrow>
         top_k_indices L sims k ! a < top_k_indices L sims k ! b))"
proof -
  obtain n where t: "top_k_indices L sims k = rev (drop n (argsort L sims))"
    using top_k_suffix by blast
  have pos: "\<exists>a' b'. a' < b' \<and> b' < length (argsort L sims) \<and>
      argsort L sims ! a' = top_k_indices L sims k ! b \<and>
      argsort L sims ! b' = top_k_indices L sims k ! a"
    if "a < b" "b < length (top_k_indices L sims k)" for a b
    using rev_drop_positions[of a b n "argsort L sims"] that unfolding t by simp
  have st: "top_k_indices L sims k ! b < top_k_indices L sims k ! a"
    if "argsort L sims = stable_argsort sims" "a < b" "b < length (top_k_indices L sims k)"
      "sims ! (top_k_indices L sims k ! a) = sims ! (top_k_indices L sims k ! b)" for a b
    using rev_drop_lex[of "(!) sims" "(<)" "argsort L sims" a b n]
      stable_argsort_lex[of sims] that unfolding t by simp
  have rv: "top_k_indices L sims k ! a < top_k_indices L sims k ! b"
    if "argsort L sims = reverse_argsort sims" "a < b" "b < length (top_k_indices L sims k)"
      "sims ! (top_k_indices L sims k ! a) = sims ! (top_k_indices L sims k ! b)" for a b
    using rev_drop_lex[of "(!) sims" "\<lambda>x y. y < x" "argsort L sims" a b n]
      reverse_argsort_lex[of sims] that unfolding t by simp
  show ?thesis
    using pos st rv is_argsort_stable[of sims] is_argsort_reverse[of sims] by blast
qed

theorem tie_order_follows_argsort_witness:
  "argsort demo_lib [1, 1, 0] = stable_argsort [1, 1, 0] \<and>
   top_k_indices demo_lib [1, 1, 0] 3 = [1, 0, 2] \<and>
   top_k_indices demo_lib [1, 1, 0] 3 ! 1 < top_k_indices demo_lib [1, 1, 0] 3 ! 0 \<and>
   argsort reverse_lib [1, 1, 0] = reverse_argsort [1, 1, 0] \<and>
   top_k_indices reverse_lib [1, 1, 0] 3 = [0, 1, 2] \<and>
   top_k_indices reverse_lib [1, 1, 0] 3 ! 0 < top_k_indices reverse_lib [1, 1, 0] 3 ! 1"
proof -
  note s = tie_order_follows_argsort[of demo_lib "[1, 1, 0]" 3,
      THEN conjunct2, THEN conjunct2, THEN conjunct2, THEN conjunct1]
  note r = tie_order_follows_argsort[of reverse_lib "[1, 1, 0]" 3,
      THEN conjunct2, THEN conjunct2, THEN conjunct2, THEN conjunct2]
  have hs: "(0::nat) < 1 \<and> 1 < length (top_k_indices demo_lib [1, 1, 0] 3) \<and>
        [1, 1, 0 :: real] ! (top_k_indices demo_lib [1, 1, 0] 3 ! 0) =
        [1, 1, 0] ! (top_k_indices demo_lib [1, 1, 0] 3 ! 1)"
    by (simp add: demo_top_3)
  have hr: "(0::nat) < 1 \<and> 1 < length (top_k_indices reverse_lib [1, 1, 0] 3) \<and>
        [1, 1, 0 :: real] ! (top_k_indices reverse_lib [1, 1, 0] 3 ! 0) =
        [1, 1, 0] ! (top_k_indices reverse_lib [1, 1, 0] 3 ! 1)"
    by (simp add: reverse_top_3)
  have a: "top_k_indices demo_lib [1, 1, 0] 3 ! 1 < top_k_indices demo_lib [1, 1, 0] 3 ! 0"
    using s demo_argsort hs by blast
  have b: "top_k_indices reverse_lib [1, 1, 0] 3 ! 0 < top_k_indices reverse_lib [1, 1, 0] 3 ! 1"
    using r reverse_argsort_lib hr by blast
  show ?thesis
    by (intro conjI demo_argsort demo_top_3 a reverse_argsort_lib reverse_top_3 b)
qed

text \<open>
  On the small corpus rows \<open>0\<close> and \<open>1\<close> tie. With an argsort that meets the contract
  row \<open>1\<close> is listed before row \<open>0\<close>.
\<close>

theorem ties_lower_index_first_counterexample:
  "strip [97] \<noteq> [] \<and>
   cosine_similarity demo_lib [1, 0] (corpus_embeddings demo_globals) = Inr [1, 1, 0] \<and>
   [1, 1, 0 :: real] ! 0 = [1, 1, 0] ! 1 \<and>
   is_argsort [1, 1, 0] (argsort demo_lib [1, 1, 0]) \<and>
   top_k_indices demo_lib [1, 1, 0] 3 = [1, 0, 2] \<and>
   search_generator demo_lib demo_globals cache_clear [97] 3 =
     (\<lparr>yields = [(Blank, Searching),
                 (TopResults [97] [''second'', ''first'', ''third''], DisplayingTop 3)],
       raised = None\<rparr>,
      \<lparr>cache = [([97], [1, 0])], calls = 1\<rparr>)"
proof -
  have g: "search_generator demo_lib demo_globals cache_clear [97] 3 =
     (\<lparr>yields = [(Blank, Searching),
                 (TopResults [97] [''second'', ''first'', ''third''], DisplayingTop 3)],
       raised = None\<rparr>,
      \<lparr>cache = [([97], [1, 0])], calls = 1\<rparr>)"
    using search_generator_results
      [OF demo_strip demo_encode demo_cosine demo_top_3 _ demo_cards_3]
    by simp
  have e: "[1, 1, 0 :: real] ! 0 = [1, 1, 0] ! 1" by simp
  show ?thesis
    by (intro conjI demo_strip demo_cosine e demo_is_argsort demo_top_3 g)
qed




text \<open>
  C10. For a query that is not blank over a corpus that is not empty, \<open>k = 0\<close> does not
  give zero results: \<open>[-0:]\<close> is the whole argsort, so the generator returns all corpus
  rows ranked by descending score, exactly what it returns for \<open>k\<close> equal to the corpus
  size.
\<close>

theorem search_k_zero_returns_all:
  assumes "strip q \<noteq> []"
    and "encode_query (model G) q st = (Inr qv, st')"
    and "cosine_similarity L qv (corpus_embeddings G) = Inr sims"
    and "length sims = length (corpus_embeddings G)"
    and "is_argsort sims (argsort L sims)"
    and "corpus_embeddings G \<noteq> []"
    and "cards L (df G) (top_k_indices L sims 0) = Inr cs"
  shows "search_generator L G st q 0 =
           (\<lparr>yields = [(Blank, Searching),
                       (TopResults q cs, DisplayingTop (length (corpus_embeddings G)))],
             raised = None\<rparr>, st') \<and>
         search_generator L G st q 0 =
           search_generator L G st q (int (length (corpus_embeddings G))) \<and>
         top_k_indices L sims 0 = rev (argsort L sims) \<and>
         mset (top_k_indices L sims 0) = mset [0..<length (corpus_embeddings G)] \<and>
         length cs = length (corpus_embeddings G) \<and> cs \<noteq> [] \<and>
         (\<forall>n<length cs. card L (df G ! (top_k_indices L sims 0 ! n)) = Inr (cs ! n)) \<and>
         sorted_wrt (\<lambda>i j. sims ! j \<le> sims ! i) (top_k_indices L sims 0)"
proof -
  let ?top = "top_k_indices L sims 0"
  let ?N = "length (corpus_embeddings G)"
  have all: "?top = rev (argsort L sims)"
    by (intro top_k_all[OF assms(5)]) simp
  have same: "top_k_indices L sims (int ?N) = ?top"
    using assms(4) by (simp add: all top_k_all[OF assms(5)])
  have ms: "mset ?top = mset [0..<?N]"
    using assms(4,5) by (simp add: all is_argsort_def)
  have len: "length ?top = ?N"
    using assms(4) by (simp add: all is_argsort_length[OF assms(5)])
  have cs: "length cs = ?N" "\<forall>n<length cs. card L (df G ! (?top ! n)) = Inr (cs ! n)"
    using cards_Inr[OF assms(7)] len by simp_all
  have gen: "search_generator L G st q 0 =
           (\<lparr>yields = [(Blank, Searching), (TopResults q cs, DisplayingTop ?N)],
             raised = None\<rparr>, st')"
    using len assms(6,7) by (auto simp: search_generator_scored[OF assms(1-3)])
  have eq: "search_generator L G st q 0 = search_generator L G st q (int ?N)"
    by (simp only: search_generator_scored[OF assms(1-3)] same)
  show ?thesis
    using gen eq all ms cs assms(6) top_k_facts(3)[OF assms(5), where k=0] by auto
qed

theorem search_k_zero_returns_all_witness:
  "strip [97] \<noteq> [] \<and> corpus_embeddings demo_globals \<noteq> [] \<and>
   search_generator demo_lib demo_globals cache_clear [97] 0 =
     (\<lparr>yields = [(Blank, Searching),
                 (TopResults [97] [''second'', ''first'', ''third''], DisplayingTop 3)],
       raised = None\<rparr>,
      \<lparr>cache = [([97], [1, 0])], calls = 1\<rparr>) \<and>
   search_generator demo_lib demo_globals cache_clear [97] 0 =
     search_generator demo_lib demo_globals cache_clear [97] 3"
proof -
  have n: "length (corpus_embeddings demo_globals) = 3" "corpus_embeddings demo_globals \<noteq> []"
    by (simp_all add: demo_globals_def)
  have c: "cards demo_lib (df demo_globals) (top_k_indices demo_lib [1, 1, 0] 0) =
             Inr [''second'', ''first'', ''third'']"
    by (simp only: demo_top_0 demo_cards_3)
  note t = search_k_zero_returns_all
    [OF demo_strip demo_encode demo_cosine demo_length demo_is_argsort n(2) c]
  have g: "search_generator demo_lib demo_globals cache_clear [97] 0 =
     (\<lparr>yields = [(Blank, Searching),
                 (TopResults [97] [''second'', ''first'', ''third''], DisplayingTop 3)],
       raised = None\<rparr>,
      \<lparr>cache = [([97], [1, 0])], calls = 1\<rparr>)"
    using t[THEN conjunct1] n by simp
  have e: "search_generator demo_lib demo_globals cache_clear [97] 0 =
     search_generator demo_lib demo_globals cache_clear [97] 3"
    using t[THEN conjunct2, THEN conjunct1] by (simp add: n)
  show ?thesis
    by (intro conjI demo_strip n(2) g e)
qed

subsection \<open>Blank queries\<close>

text \<open>
  C4. For a query that is empty or consists of white space only, the generator yields
  the single pair asking for a query and stops: no ranked result, no exception, and the
  encoder state (cache and call count) is returned unchanged. The result is the same
  whatever the encoder, the similarity routine and the corpus are, so none of them is
  consulted.
\<close>

theorem blank_query_idle:
  assumes "\<forall>c\<in>set q. isspace c"
  shows "search_generator L G st q k =
           (\<lparr>yields = [(PleaseEnter, WaitingForInput)], raised = None\<rparr>, st)"
  using assms by (simp add: search_generator_def strip_empty_iff)

theorem blank_query_idle_witness:
  "isspace 32 \<and>
   search_generator demo_lib demo_globals cache_clear [] 5 =
     (\<lparr>yields = [(PleaseEnter, WaitingForInput)], raised = None\<rparr>, cache_clear) \<and>
   search_generator demo_lib demo_globals cache_clear [32, 32, 32] 5 =
     (\<lparr>yields = [(PleaseEnter, WaitingForInput)], raised = None\<rparr>, cache_clear) \<and>
   search_generator demo_lib (demo_globals\<lparr>model := failing_model\<rparr>) cache_clear [32, 32, 32] 5 =
     (\<lparr>yields = [(PleaseEnter, WaitingForInput)], raised = None\<rparr>, cache_clear)"
proof -
  have s: "isspace 32" by (simp add: isspace_def)
  then have a: "\<forall>c\<in>set [32, 32, 32]. isspace c" by simp
  have b: "\<forall>c\<in>set ([] :: pystr). isspace c" by simp
  show ?thesis
    using s blank_query_idle[OF b, of demo_lib demo_globals cache_clear 5]
      blank_query_idle[OF a, of demo_lib demo_globals cache_clear 5]
      blank_query_idle[OF a, of demo_lib "demo_globals\<lparr>model := failing_model\<rparr>" cache_clear 5]
    by simp
qed

subsection \<open>The cached encoder\<close>

text \<open>
  C8. The cache holds at most \<open>128\<close> entries with distinct keys, compared by string
  equality: the distinct queries encoded so far, ordered by their last use with the most
  recent first, cut after \<open>128\<close>. Once it holds \<open>128\<close>, encoding one more distinct query (whose encoding
  succeeds) puts it in front and drops the entry used least recently, the last one; the
  other \<open>127\<close> stay. A later call with the dropped text is a miss and invokes the wrapped
  encoder again (the call counter goes up by one), while a call with any text still
  cached does not.
\<close>

theorem lru_evicts_least_recent:
  assumes "length (cache (encode_all enc qs)) = maxsize"
    and "q \<notin> fst ` set (cache (encode_all enc qs))"
    and "enc q = Inr v"
  shows "maxsize = 128 \<and>
         map fst (cache (encode_all enc qs)) =
           take maxsize (rev (remdups (filter (\<lambda>x. \<not> isl (enc x)) qs))) \<and>
         distinct (map fst (cache (encode_all enc qs))) \<and>
         map fst (cache (encode_all enc (qs @ [q]))) =
           q # butlast (map fst (cache (encode_all enc qs))) \<and>
         length (cache (encode_all enc (qs @ [q]))) = maxsize \<and>
         fst (last (cache (encode_all enc qs))) \<notin> fst ` set (cache (encode_all enc (qs @ [q]))) \<and>
         calls (encode_all enc (qs @ [q, fst (last (cache (encode_all enc qs)))])) =
           calls (encode_all enc (qs @ [q])) + 1 \<and>
         (\<forall>x\<in>set (butlast (map fst (cache (encode_all enc qs)))).
            calls (encode_all enc (qs @ [q, x])) = calls (encode_all enc (qs @ [q])))"
proof -
  let ?st = "encode_all enc qs"
  let ?st' = "encode_all enc (qs @ [q])"
  let ?keys = "map fst (cache ?st)"
  have d: "distinct ?keys" by (rule encode_all_distinct)
  have ne: "cache ?st \<noteq> []" using assms(1) by (auto simp: maxsize_def)
  have st': "?st' = ?st\<lparr>cache := (q, v) # butlast (cache ?st), calls := calls ?st + 1\<rparr>"
    unfolding encode_all_snoc using encode_query_miss[where enc=enc and q=q and st="encode_all enc qs" and v=v] assms by simp
  have keys': "map fst (cache ?st') = q # butlast ?keys"
    by (simp add: st' map_butlast)
  have "length (cache ?st') = Suc (length (cache ?st) - 1)"
    by (simp add: st')
  moreover have "0 < length (cache ?st)" using ne by simp
  ultimately have len: "length (cache ?st') = maxsize"
    using assms(1) by linarith
  have lastk: "last ?keys = fst (last (cache ?st))" using ne by (simp add: last_map)
  have "distinct (butlast ?keys @ [last ?keys])" using d ne by simp
  then have "last ?keys \<notin> set (butlast ?keys)" by simp
  moreover have "last ?keys \<noteq> q"
    using assms(2) ne by (metis lastk last_in_set image_eqI)
  ultimately have gone: "fst (last (cache ?st)) \<notin> fst ` set (cache ?st')"
    using keys' lastk by (metis list.set_map set_ConsD)
  have again: "calls (encode_all enc (qs @ [q, fst (last (cache ?st))])) = calls ?st' + 1"
    using encode_query_miss_calls[OF gone, of enc] encode_all_snoc[of enc "qs @ [q]"] by simp
  have kept: "calls (encode_all enc (qs @ [q, x])) = calls ?st'"
    if "x \<in> set (butlast ?keys)" for x
  proof -
    have "x \<in> fst ` set (cache ?st')" using that keys' by (metis list.set_intros(2) list.set_map)
    from encode_query_hit_calls[OF this, of enc] show ?thesis
      using encode_all_snoc[of enc "qs @ [q]"] by simp
  qed
  show ?thesis
    using d keys' len gone again kept encode_all_recency[of enc qs] by (simp add: maxsize_def)
qed

theorem lru_evicts_least_recent_witness:
  "length (cache (encode_all demo_model (demo_queries 128))) = maxsize \<and>
   replicate 129 97 \<notin> fst ` set (cache (encode_all demo_model (demo_queries 128))) \<and>
   demo_model (replicate 129 97) = Inr [1, 0] \<and>
   fst (last (cache (encode_all demo_model (demo_queries 128)))) = [97] \<and>
   [97] \<notin> fst ` set (cache (encode_all demo_model (demo_queries 128 @ [replicate 129 97]))) \<and>
   calls (encode_all demo_model (demo_queries 128 @ [replicate 129 97, [97]])) =
     calls (encode_all demo_model (demo_queries 128 @ [replicate 129 97])) + 1"
proof -
  note t = lru_evicts_least_recent[OF demo_queries_full(1,2) demo_model_129]
  have gone: "[97] \<notin> fst ` set (cache (encode_all demo_model (demo_queries 128 @ [replicate 129 97])))"
    using t[THEN conjunct2, THEN conjunct2, THEN conjunct2, THEN conjunct2, THEN conjunct2,
        THEN conjunct1]
    unfolding demo_queries_full(3) .
  have again: "calls (encode_all demo_model (demo_queries 128 @ [replicate 129 97, [97]])) =
     calls (encode_all demo_model (demo_queries 128 @ [replicate 129 97])) + 1"
    using t[THEN conjunct2, THEN conjunct2, THEN conjunct2, THEN conjunct2, THEN conjunct2,
        THEN conjunct2, THEN conjunct1]
    unfolding demo_queries_full(3) .
  show ?thesis
    by (intro conjI demo_queries_full(1,2,3) demo_model_129 gone again)
qed

subsection \<open>A failing encoder\<close>

text \<open>
  C9 (as amended). When the embedding computation raises during a search request, the
  generator does not capture it: after the searching status has been yielded the
  exception leaves the generator, and no result and no error payload is yielded. The
  failed call stores nothing: the cache is as before (only the call counter moved), so
  every later request is answered exactly as it would have been without the failed one.
  What the caller of the generator does with the exception is outside the script.
\<close>

theorem encoding_failure_propagates:
  assumes "strip q \<noteq> []"
    and "fst (encode_query (model G) q st) = Inl e"
  shows "search_generator L G st q k =
           (\<lparr>yields = [(Blank, Searching)], raised = Some e\<rparr>, st\<lparr>calls := calls st + 1\<rparr>) \<and>
         cache (snd (search_generator L G st q k)) = cache st \<and>
         (\<forall>q' k'. fst (search_generator L G (snd (search_generator L G st q k)) q' k') =
                   fst (search_generator L G st q' k'))"
proof -
  have g: "search_generator L G st q k =
           (\<lparr>yields = [(Blank, Searching)], raised = Some e\<rparr>, st\<lparr>calls := calls st + 1\<rparr>)"
    using assms(1) encode_query_failure[OF assms(2)] by (simp add: search_generator_def)
  then have c: "cache (snd (search_generator L G st q k)) = cache st" by simp
  show ?thesis using g c search_generator_cache_only[OF c] by blast
qed

theorem encoding_failure_propagates_witness:
  "strip [97] \<noteq> [] \<and>
   fst (encode_query (model failing_globals) [97] cache_clear) =
     Inl RuntimeError \<and>
   search_generator demo_lib failing_globals cache_clear [97] 5 =
     (\<lparr>yields = [(Blank, Searching)], raised = Some RuntimeError\<rparr>,
      \<lparr>cache = [], calls = 1\<rparr>)"
proof -
  have f: "fst (encode_query (model failing_globals) [97] cache_clear) =
     Inl RuntimeError" by (simp add: failing_encode)
  have g: "search_generator demo_lib failing_globals cache_clear [97] 5 =
     (\<lparr>yields = [(Blank, Searching)], raised = Some RuntimeError\<rparr>,
      \<lparr>cache = [], calls = 1\<rparr>)"
    using encoding_failure_propagates[OF demo_strip f, THEN conjunct1, of demo_lib 5]
    by (simp add: cache_clear_def)
  show ?thesis
    by (intro conjI demo_strip f g)
qed

text \<open>
  With the failing encoder the run for the query \<open>a\<close> ends in \<open>RuntimeError\<close>; the only
  pair yielded is the searching status.
\<close>

theorem encoding_failure_not_captured_counterexample:
  "strip [97] \<noteq> [] \<and>
   model failing_globals [97] = Inl RuntimeError \<and>
   search_generator demo_lib failing_globals cache_clear [97] 5 =
     (\<lparr>yields = [(Blank, Searching)], raised = Some RuntimeError\<rparr>,
      \<lparr>cache = [], calls = 1\<rparr>) \<and>
   raised (fst (search_generator demo_lib failing_globals
                  cache_clear [97] 5)) \<noteq> None"
proof -
  have "search_generator demo_lib failing_globals cache_clear [97] 5 =
     (\<lparr>yields = [(Blank, Searching)], raised = Some RuntimeError\<rparr>,
      \<lparr>cache = [], calls = 1\<rparr>)"
    using demo_strip by (simp add: search_generator_def failing_encode)
  then show ?thesis using demo_strip by (simp add: failing_globals_def failing_model_def)
qed

subsection \<open>Loading\<close>

text \<open>
  C5 (as amended). Loading does not compare the number of records with the number of
  embedding rows: whenever both files are read and the encoder is constructed, loading
  succeeds whatever the two counts are, the success line is printed and the interface is
  launched. No alignment error exists. A search over such a corpus ranks the embedding
  rows, and a request whose selected positions include one past the last record ends
  with an exception after the searching status, without results.
\<close>

theorem load_ignores_row_counts:
  "load (Inr d) (Inr m) (Inr enc) =
     ([LoadingAssets, LoadingModel, AllLoaded],
      Loaded \<lparr>df = d, corpus_embeddings = m, model = enc\<rparr>) \<and>
   launched (snd (load (Inr d) (Inr m) (Inr enc))) \<and>
   exit_status (snd (load (Inr d) (Inr m) (Inr enc))) = None \<and>
   (\<forall>L st q k qv st' sims.
      strip q \<noteq> [] \<and> encode_query enc q st = (Inr qv, st') \<and>
      cosine_similarity L qv m = Inr sims \<and>
      (\<exists>i\<in>set (top_k_indices L sims k). length d \<le> i) \<longrightarrow>
      (\<exists>e. search_generator L \<lparr>df = d, corpus_embeddings = m, model = enc\<rparr> st q k =
             (\<lparr>yields = [(Blank, Searching)], raised = Some e\<rparr>, st')))"
proof -
  have fails: "\<exists>e. search_generator L \<lparr>df = d, corpus_embeddings = m, model = enc\<rparr> st q k =
             (\<lparr>yields = [(Blank, Searching)], raised = Some e\<rparr>, st')"
    if h: "strip q \<noteq> []" "encode_query enc q st = (Inr qv, st')"
      "cosine_similarity L qv m = Inr sims" "i \<in> set (top_k_indices L sims k)" "length d \<le> i"
    for L :: "('b, 'a, 'c) lib" and st q k qv st' sims i
  proof -
    let ?G = "\<lparr>df = d, corpus_embeddings = m, model = enc\<rparr>"
    have ne: "top_k_indices L sims k \<noteq> []" using h(4) by auto
    obtain e where e: "cards L (df ?G) (top_k_indices L sims k) = Inl e"
      using cards_out_of_range[OF h(4), of d L] h(5) by auto
    have "search_generator L ?G st q k = (\<lparr>yields = [(Blank, Searching)], raised = Some e\<rparr>, st')"
      using search_generator_scored[of q ?G st qv st' L sims k] h(1-3) ne e by simp
    then show ?thesis by blast
  qed
  show ?thesis
    using fails by (simp add: load_ok) blast
qed

theorem load_ignores_row_counts_witness:
  "load (Inr (df short_globals)) (Inr (corpus_embeddings short_globals))
        (Inr (model short_globals)) =
     ([LoadingAssets, LoadingModel, AllLoaded], Loaded short_globals) \<and>
   strip [97] \<noteq> [] \<and>
   encode_query (model short_globals) [97] cache_clear =
     (Inr [1, 0], \<lparr>cache = [([97], [1, 0])], calls = 1\<rparr>) \<and>
   cosine_similarity demo_lib [1, 0] (corpus_embeddings short_globals) = Inr [1, 0] \<and>
   1 \<in> set (top_k_indices demo_lib [1, 0] 5) \<and> length (df short_globals) \<le> 1 \<and>
   yields (fst (search_generator demo_lib short_globals cache_clear [97] 5)) =
     [(Blank, Searching)] \<and>
   raised (fst (search_generator demo_lib short_globals cache_clear [97] 5)) \<noteq> None"
proof -
  note t = load_ignores_row_counts
    [of "df short_globals" "corpus_embeddings short_globals" "model short_globals"]
  have l: "load (Inr (df short_globals)) (Inr (corpus_embeddings short_globals))
        (Inr (model short_globals)) =
     ([LoadingAssets, LoadingModel, AllLoaded], Loaded short_globals)"
    using t[THEN conjunct1] by simp
  have i: "1 \<in> set (top_k_indices demo_lib [1, 0] 5)" "length (df short_globals) \<le> 1"
    by (simp_all add: short_top_5 short_rows)
  then have "\<exists>i\<in>set (top_k_indices demo_lib [1, 0] 5). length (df short_globals) \<le> i"
    by blast
  with t[THEN conjunct2, THEN conjunct2, THEN conjunct2] demo_strip short_encode short_cosine
  have "\<exists>e. search_generator demo_lib
              \<lparr>df = df short_globals, corpus_embeddings = corpus_embeddings short_globals,
                 model = model short_globals\<rparr> cache_clear [97] 5 =
            (\<lparr>yields = [(Blank, Searching)], raised = Some e\<rparr>,
             \<lparr>cache = [([97], [1, 0])], calls = 1\<rparr>)"
    by blast
  then obtain e where "search_generator demo_lib short_globals cache_clear [97] 5 =
            (\<lparr>yields = [(Blank, Searching)], raised = Some e\<rparr>,
             \<lparr>cache = [([97], [1, 0])], calls = 1\<rparr>)"
    by (auto simp: short_globals_def)
  then have r: "yields (fst (search_generator demo_lib short_globals cache_clear [97] 5)) =
     [(Blank, Searching)]"
    "raised (fst (search_generator demo_lib short_globals cache_clear [97] 5)) \<noteq> None"
    by simp_all
  show ?thesis
    by (intro conjI l demo_strip short_encode short_cosine i r)
qed

text \<open>
  One record beside two embedding rows: loading succeeds and the interface is launched;
  the query \<open>a\<close> is served a result for \<open>k = 1\<close>, and for \<open>k = 5\<close> the lookup of row
  \<open>1\<close> raises \<open>IndexError\<close>.
\<close>

theorem misaligned_corpus_served_counterexample:
  "length (df short_globals) = 1 \<and> length (corpus_embeddings short_globals) = 2 \<and>
   load (Inr (df short_globals)) (Inr (corpus_embeddings short_globals))
        (Inr (model short_globals)) =
     ([LoadingAssets, LoadingModel, AllLoaded], Loaded short_globals) \<and>
   launched (Loaded short_globals) \<and>
   search_generator demo_lib short_globals cache_clear [97] 1 =
     (\<lparr>yields = [(Blank, Searching), (TopResults [97] [''first''], DisplayingTop 1)],
       raised = None\<rparr>,
      \<lparr>cache = [([97], [1, 0])], calls = 1\<rparr>) \<and>
   search_generator demo_lib short_globals cache_clear [97] 5 =
     (\<lparr>yields = [(Blank, Searching)], raised = Some IndexError\<rparr>,
      \<lparr>cache = [([97], [1, 0])], calls = 1\<rparr>)"
proof -
  have s1: "search_generator demo_lib short_globals cache_clear [97] 1 =
     (\<lparr>yields = [(Blank, Searching), (TopResults [97] [''first''], DisplayingTop 1)],
       raised = None\<rparr>,
      \<lparr>cache = [([97], [1, 0])], calls = 1\<rparr>)"
    using search_generator_results
      [OF demo_strip short_encode short_cosine short_top_1 _ short_cards_1]
    by simp
  have s5: "search_generator demo_lib short_globals cache_clear [97] 5 =
     (\<lparr>yields = [(Blank, Searching)], raised = Some IndexError\<rparr>,
      \<lparr>cache = [([97], [1, 0])], calls = 1\<rparr>)"
    by (simp only: search_generator_scored[OF demo_strip short_encode short_cosine]
        short_top_5 short_cards_5) simp
  have la: "launched (Loaded short_globals)" by simp
  show ?thesis
    by (intro conjI short_rows short_load la s1 s5)
qed

text \<open>
  C6 (as amended). If the records file is absent, or it is read and the embeddings file
  is absent, startup prints the descriptive error line and the exception and leaves
  through \<open>exit()\<close>, called without a status; the interface is never built or launched.
\<close>

theorem missing_asset_exits:
  assumes "read_csv = Inl FileNotFoundError \<or>
           (\<exists>d. read_csv = Inr d) \<and> np_load = Inl FileNotFoundError"
  shows "load read_csv np_load sentence_transformer =
           ([LoadingAssets, CouldNotFind, Printed FileNotFoundError], SystemExit None) \<and>
         \<not> launched (snd (load read_csv np_load sentence_transformer))"
  using assms by (auto simp: load_def handler_def)

theorem missing_asset_exits_witness:
  "load (Inl FileNotFoundError :: pyexn + string list) (Inr [[1, 0 :: real]]) (Inr demo_model) =
     ([LoadingAssets, CouldNotFind, Printed FileNotFoundError], SystemExit None) \<and>
   load (Inr [''first'']) (Inl FileNotFoundError :: pyexn + real list list) (Inr demo_model) =
     ([LoadingAssets, CouldNotFind, Printed FileNotFoundError], SystemExit None)"
proof -
  have a: "(Inl FileNotFoundError :: pyexn + string list) = Inl FileNotFoundError \<or>
           (\<exists>d. (Inl FileNotFoundError :: pyexn + string list) = Inr d) \<and>
           (Inr [[1, 0 :: real]] :: pyexn + real list list) = Inl FileNotFoundError"
    by simp
  have b: "(Inr [''first''] :: pyexn + string list) = Inl FileNotFoundError \<or>
           (\<exists>d. (Inr [''first''] :: pyexn + string list) = Inr d) \<and>
           (Inl FileNotFoundError :: pyexn + real list list) = Inl FileNotFoundError"
    by simp
  show ?thesis
    by (intro conjI missing_asset_exits[OF a, THEN conjunct1]
        missing_asset_exits[OF b, THEN conjunct1])
qed

text \<open>
  With the records file absent the process ends with exit status \<open>0\<close>.
\<close>

theorem missing_asset_exit_status_counterexample:
  "load (Inl FileNotFoundError :: pyexn + string list) (Inr [[1, 0 :: real]]) (Inr demo_model) =
     ([LoadingAssets, CouldNotFind, Printed FileNotFoundError], SystemExit None) \<and>
   exit_status (snd (load (Inl FileNotFoundError :: pyexn + string list)
                       (Inr [[1, 0 :: real]]) (Inr demo_model))) = Some 0"
  by (simp add: load_def handler_def)

end
